theory Spec2Isabelle
  imports
    Main
    "HOL-Library.Word"
    "HOL-Library.Multiset"
    "HOL-Library.Product_Lexorder"
    "HOL-Library.Monad_Syntax"
begin

section \<open>The array-backed min-heap (heap/array_min_heap.go)\<close>

text \<open>
  An \<open>Item\<close> carries a priority, an opaque payload and one tie-break field. The payload
  is a Go \<open>interface{}\<close>: \<open>None\<close> stands for \<open>nil\<close>. Priorities are Go \<open>int\<close>s that
  are only ever compared, so they are modelled as \<open>int\<close>.

  The tie-break field. The heap file declares it as \<open>CreatedAt\<close>, a time stamp that
  \<open>Less\<close> compares with \<open>Before\<close>, a strict order. \<open>Enqueue\<close> in req_pq.go fills a
  field \<open>Order\<close> with the queue's \<open>uint64\<close> counter, the sequence number of the spec; the
  declaration of \<open>Item\<close> with that field is not among the sources. The record has the one
  tie-break field, under the name \<open>Order\<close>, and its type is a parameter: any linear
  order for the heap, \<open>64 word\<close> for the queue.
\<close>

record ('a, 'k) Item =
  Priority :: int
  Data :: "'a option"
  Order :: 'k

text \<open>
  \<open>ItemHeap\<close> is a slice of pointers to items. No heap operation writes through these
  pointers, so the slice is a list of item values. Indices are Go \<open>int\<close>s, modelled as
  \<open>int\<close>: a slice has fewer than \<open>2^63\<close> elements and the indices computed stay below
  twice its length plus one, far from overflow for any slice that fits in memory. An index
  expression outside the slice panics, which is the result \<open>None\<close> here.
\<close>

type_synonym ('a, 'k) ItemHeap = "('a, 'k) Item list"

definition at :: "'x list \<Rightarrow> int \<Rightarrow> 'x option" where
  "at h i = (if 0 \<le> i \<and> i < int (length h) then Some (h ! nat i) else None)"

definition NewHeap :: "('a, 'k::{linorder,zero}) ItemHeap" where
  "NewHeap = [\<lparr>Priority = 0, Data = None, Order = 0\<rparr>]"

definition Len :: "('a, 'k) ItemHeap \<Rightarrow> int" where
  "Len h = int (length h) - 1"

definition Empty :: "('a, 'k) ItemHeap \<Rightarrow> bool" where
  "Empty h = (Len h = 0)"

definition Less :: "('a, 'k::linorder) ItemHeap \<Rightarrow> int \<Rightarrow> int \<Rightarrow> bool option" where
  "Less h i j = do {
     x \<leftarrow> at h i;
     y \<leftarrow> at h j;
     Some (if Priority x = Priority y then Order x < Order y
           else Priority x < Priority y)
   }"

definition Swap :: "('a, 'k) ItemHeap \<Rightarrow> int \<Rightarrow> int \<Rightarrow> ('a, 'k) ItemHeap option" where
  "Swap h i j = do {
     x \<leftarrow> at h i;
     y \<leftarrow> at h j;
     Some (h[nat i := y, nat j := x])
   }"

text \<open>Go's integer division truncates towards zero.\<close>

definition parent :: "int \<Rightarrow> int" where
  "parent k = (if k < 0 then - ((- k) div 2) else k div 2)"

definition leftChild :: "int \<Rightarrow> int" where
  "leftChild k = k * 2"

definition rightChild :: "int \<Rightarrow> int" where
  "rightChild k = k * 2 + 1"

function up :: "('a, 'k::linorder) ItemHeap \<Rightarrow> int \<Rightarrow> ('a, 'k) ItemHeap option" where
  "up h j =
     (let i = parent j in
      if j > 1 then do {
        b \<leftarrow> Less h j i;
        if b then do { h' \<leftarrow> Swap h i j; up h' i } else Some h
      } else Some h)"
  by pat_completeness auto
termination
  by (relation "measure (\<lambda>(h, j). nat j)") (auto simp: parent_def)

lemma Less_Some_range:
  "Less h i j = Some b \<Longrightarrow> 0 \<le> i \<and> i < int (length h) \<and> 0 \<le> j \<and> j < int (length h)"
  by (auto simp: Less_def at_def split: if_splits bind_splits)

lemma Less_irrefl: "Less h i i \<noteq> Some True"
  by (auto simp: Less_def at_def split: if_splits bind_splits)

lemma Swap_length: "Swap h i j = Some h' \<Longrightarrow> length h' = length h"
  by (auto simp: Swap_def at_def split: if_splits bind_splits)

function down :: "('a, 'k::linorder) ItemHeap \<Rightarrow> int \<Rightarrow> ('a, 'k) ItemHeap option" where
  "down h j =
     (let n = Len h; l = leftChild j; r = rightChild j in
      if l > n then Some h
      else do {
        smallestChild \<leftarrow>
          (if r > n then Some l
           else do { b \<leftarrow> Less h l r; Some (if b then l else r) });
        if smallestChild \<le> n then do {
          b \<leftarrow> Less h smallestChild j;
          if b then do { h' \<leftarrow> Swap h j smallestChild; down h' smallestChild }
          else Some h
        } else Some h
      })"
  by pat_completeness auto
termination
proof (relation "measure (\<lambda>(h, j). nat (int (length h) - j))", goal_cases)
  case 1
  show ?case by simp
next
  case (2 h j n l r sc b h')
  from 2 have L: "Less h sc j = Some True" by simp
  from Less_Some_range[OF L] have rng: "0 \<le> j" "sc < int (length h)" by simp_all
  from L Less_irrefl[of h j] have ne: "sc \<noteq> j" by auto
  from 2 have "sc = j * 2 \<or> sc = j * 2 + 1"
    by (auto simp: leftChild_def rightChild_def split: if_splits bind_splits)
  with rng ne have "j < sc" by auto
  moreover from 2 have "length h' = length h" by (auto dest: Swap_length)
  ultimately show ?case using rng by simp
qed

declare up.simps [simp del] down.simps [simp del]

text \<open>
  \<open>Push\<close> takes a non-nil \<open>*Item\<close>. \<open>Pop\<close> returns \<open>nil\<close> (here \<open>None\<close>) on an empty
  heap. The slice expression \<open>old[0:n]\<close> panics for \<open>n\<close> outside the slice; the slot
  it cuts off, set to \<open>nil\<close> before, is outside the new slice.
\<close>

definition slice_to :: "'x list \<Rightarrow> int \<Rightarrow> 'x list option" where
  "slice_to h n = (if 0 \<le> n \<and> n \<le> int (length h) then Some (take (nat n) h) else None)"

definition Push :: "('a, 'k::linorder) ItemHeap \<Rightarrow> ('a, 'k) Item \<Rightarrow> ('a, 'k) ItemHeap option" where
  "Push h item = (let h' = h @ [item] in up h' (Len h'))"

definition Pop ::
  "('a, 'k::linorder) ItemHeap \<Rightarrow> (('a, 'k) Item option \<times> ('a, 'k) ItemHeap) option" where
  "Pop h =
     (if Empty h then Some (None, h)
      else let n = Len h in do {
        h1 \<leftarrow> Swap h 1 n;
        item \<leftarrow> at h1 n;
        h2 \<leftarrow> slice_to h1 n;
        h3 \<leftarrow> down h2 1;
        Some (Some item, h3)
      })"

lemma down_length: "down h j = Some h' \<Longrightarrow> length h' = length h"
proof (induction h j arbitrary: h' rule: down.induct)
  case (1 h j)
  show ?case
  proof (cases "leftChild j > Len h")
    case True
    with "1.prems" show ?thesis by (subst (asm) down.simps) simp
  next
    case False
    from "1.prems" False obtain c where
      c: "(if rightChild j > Len h then Some (leftChild j)
           else do { b \<leftarrow> Less h (leftChild j) (rightChild j);
                     Some (if b then leftChild j else rightChild j) }) = Some c"
      by (subst (asm) down.simps) (auto simp: Let_def split: bind_splits)
    show ?thesis
    proof (cases "c \<le> Len h \<and> Less h c j = Some True")
      case True
      with "1.prems" False c obtain g where g: "Swap h j c = Some g" "down g c = Some h'"
        by (subst (asm) down.simps) (auto simp: Let_def split: bind_splits)
      from True have t: "c \<le> Len h" "Less h c j = Some True" by simp_all
      have "length h' = length g"
        using "1.IH"[OF refl refl refl False c t TrueI g] .
      then show ?thesis using Swap_length[OF g(1)] by simp
    next
      case nt: False
      with "1.prems" False c show ?thesis
        by (subst (asm) down.simps) (auto simp: Let_def split: bind_splits if_splits)
    qed
  qed
qed

lemma Pop_Some_length:
  assumes "Pop h = Some (Some x, h')"
  shows "length h' < length h"
proof -
  from assms obtain h1 h2 where
    s: "Swap h 1 (Len h) = Some h1" "slice_to h1 (Len h) = Some h2" "down h2 1 = Some h'"
    by (auto simp: Pop_def Let_def split: if_splits bind_splits)
  from s(1) have "1 < length h" by (auto simp: Swap_def at_def split: if_splits bind_splits)
  moreover from s(2) have "length h2 = nat (Len h)"
    using Swap_length[OF s(1)] by (auto simp: slice_to_def split: if_splits)
  ultimately show ?thesis using down_length[OF s(3)] by (simp add: Len_def)
qed

lemma Pop_None_Empty: "Pop h = Some (None, h') \<Longrightarrow> Empty h"
  by (auto simp: Pop_def Let_def split: if_splits bind_splits)

text \<open>Sequences of heap operations, with what each \<open>Pop\<close> returned.\<close>

datatype ('a, 'k) heap_op = OpPush "('a, 'k) Item" | OpPop

fun exec ::
  "('a, 'k::linorder) heap_op list \<Rightarrow> ('a, 'k) ItemHeap \<Rightarrow>
   (('a, 'k) Item option list \<times> ('a, 'k) ItemHeap) option" where
  "exec [] h = Some ([], h)"
| "exec (OpPush x # ops) h = do { h' \<leftarrow> Push h x; exec ops h' }"
| "exec (OpPop # ops) h =
     do { (r, h') \<leftarrow> Pop h; (rs, h'') \<leftarrow> exec ops h'; Some (r # rs, h'') }"

fun pushed :: "('a, 'k) heap_op list \<Rightarrow> ('a, 'k) Item list" where
  "pushed [] = []"
| "pushed (OpPush x # ops) = x # pushed ops"
| "pushed (OpPop # ops) = pushed ops"

section \<open>The priority queue (req_pq.go)\<close>

text \<open>
  Modelled from the spec: \<open>popAll\<close>, \<open>pushAll\<close> and \<open>renumber\<close> are the three steps of
  the renumbering pass \<open>ReOrder\<close> below, whose body is not among the sources: pop every
  item (the dequeue order), number the items from \<open>k\<close> in that order, push them.
\<close>

function popAll ::
  "('a, 'k::linorder) ItemHeap \<Rightarrow> (('a, 'k) Item list \<times> ('a, 'k) ItemHeap) option" where
  "popAll h = do {
     (item, h') \<leftarrow> Pop h;
     case item of
       None \<Rightarrow> Some ([], h')
     | Some x \<Rightarrow> do { (xs, h'') \<leftarrow> popAll h'; Some (x # xs, h'') }
   }"
  by pat_completeness auto
termination
proof (relation "measure length", goal_cases)
  case 1
  show ?case by simp
next
  case (2 h x item h' y)
  then show ?case by (auto dest: Pop_Some_length)
qed

declare popAll.simps [simp del]

fun pushAll ::
  "('a, 'k::linorder) ItemHeap \<Rightarrow> ('a, 'k) Item list \<Rightarrow> ('a, 'k) ItemHeap option" where
  "pushAll h [] = Some h"
| "pushAll h (x # xs) = do { h' \<leftarrow> Push h x; pushAll h' xs }"

fun renumber :: "nat \<Rightarrow> ('a, 64 word) Item list \<Rightarrow> ('a, 64 word) Item list" where
  "renumber k [] = []"
| "renumber k (x # xs) = x\<lparr>Order := of_nat k\<rparr> # renumber (Suc k) xs"

text \<open>
  Modelled from the spec: \<open>ReOrder\<close>, which \<open>Enqueue\<close> calls when the counter is at its
  maximum, is not in the heap file present. The spec (4.2): the renumbering pass
  "extracts the current heap order and reassigns sequence numbers 0..n-1 in dequeue order
  before continuing". The spec does not say which counter value \<open>ReOrder\<close> returns; the
  model returns \<open>n\<close>, the first number not handed out.
\<close>

definition ReOrder ::
  "('a, 64 word) ItemHeap \<Rightarrow> (('a, 64 word) ItemHeap \<times> 64 word) option" where
  "ReOrder h = do {
     (xs, h0) \<leftarrow> popAll h;
     h' \<leftarrow> pushAll h0 (renumber 0 xs);
     Some (h', of_nat (length xs))
   }"

text \<open>
  The queue owns the heap and the \<open>uint64\<close> counter. The lock serialises the four
  methods; the model is the sequential behaviour of one method call at a time.
\<close>

record 'a Queue =
  heap :: "('a, 64 word) ItemHeap"
  count_q :: "64 word"

datatype error = EmptyQueue

definition MaxUint64 :: "64 word" where
  "MaxUint64 = 18446744073709551615"

definition NewQueue :: "'a Queue" where
  "NewQueue = \<lparr>heap = NewHeap, count_q = 0\<rparr>"

text \<open>\<open>mockNewQueue\<close> is the constructor of the queue's test file: an empty queue with a
  chosen counter.\<close>

definition mockNewQueue :: "64 word \<Rightarrow> 'a Queue" where
  "mockNewQueue initCount = \<lparr>heap = NewHeap, count_q = initCount\<rparr>"

definition Enqueue :: "'a Queue \<Rightarrow> 'a option \<Rightarrow> int \<Rightarrow> 'a Queue option" where
  "Enqueue q data priority = do {
     (h, c) \<leftarrow> (if count_q q = MaxUint64 then ReOrder (heap q)
                else Some (heap q, count_q q));
     let c = c + 1;
     let item = \<lparr>Priority = priority, Data = data, Order = c\<rparr>;
     h' \<leftarrow> Push h item;
     Some \<lparr>heap = h', count_q = c\<rparr>
   }"

text \<open>\<open>Dequeue\<close> returns a payload and an error; \<open>errors.New("pop an empty queue")\<close> is
  the one error value, \<open>EmptyQueue\<close>.\<close>

definition Dequeue :: "'a Queue \<Rightarrow> (('a option \<times> error option) \<times> 'a Queue) option" where
  "Dequeue q = do {
     (item, h') \<leftarrow> Pop (heap q);
     case item of
       None \<Rightarrow> Some ((None, Some EmptyQueue), q\<lparr>heap := h'\<rparr>)
     | Some x \<Rightarrow> Some ((Data x, None), q\<lparr>heap := h'\<rparr>)
   }"

definition Queue_Len :: "'a Queue \<Rightarrow> int" where
  "Queue_Len q = Len (heap q)"

definition Queue_Empty :: "'a Queue \<Rightarrow> bool" where
  "Queue_Empty q = Empty (heap q)"

text \<open>Draining: \<open>for !q.Empty() { data, err := q.Dequeue(); ... }\<close>, collecting what
  each call returned.\<close>

function drain :: "'a Queue \<Rightarrow> ('a option \<times> error option) list option" where
  "drain q =
     (if Queue_Empty q then Some []
      else do { (r, q') \<leftarrow> Dequeue q; rs \<leftarrow> drain q'; Some (r # rs) })"
  by pat_completeness auto
termination
proof (relation "measure (\<lambda>q. length (heap q))", goal_cases)
  case 1
  show ?case by simp
next
  case (2 q x r q')
  then obtain item where p: "Pop (heap q) = Some (item, heap q')"
    by (auto simp: Dequeue_def split: bind_splits option.splits)
  from 2 have ne: "\<not> Empty (heap q)" by (simp add: Queue_Empty_def)
  show ?case
  proof (cases item)
    case None
    with p ne show ?thesis by (auto dest: Pop_None_Empty)
  next
    case (Some x)
    with p show ?thesis by (auto dest: Pop_Some_length)
  qed
qed

declare drain.simps [simp del]

fun enqueue_all :: "'a Queue \<Rightarrow> ('a option \<times> int) list \<Rightarrow> 'a Queue option" where
  "enqueue_all q [] = Some q"
| "enqueue_all q ((d, p) # ts) = do { q' \<leftarrow> Enqueue q d p; enqueue_all q' ts }"

datatype 'a queue_op = Enq "'a option" int | Deq

fun run ::
  "'a queue_op list \<Rightarrow> 'a Queue \<Rightarrow> (('a option \<times> error option) list \<times> 'a Queue) option" where
  "run [] q = Some ([], q)"
| "run (Enq d p # ops) q = do { q' \<leftarrow> Enqueue q d p; run ops q' }"
| "run (Deq # ops) q =
     do { (r, q') \<leftarrow> Dequeue q; (rs, q'') \<leftarrow> run ops q'; Some (r # rs, q'') }"

fun enqueues :: "'a queue_op list \<Rightarrow> nat" where
  "enqueues [] = 0"
| "enqueues (Enq d p # ops) = Suc (enqueues ops)"
| "enqueues (Deq # ops) = enqueues ops"

definition successes :: "('a option \<times> error option) list \<Rightarrow> nat" where
  "successes rs = length (filter (\<lambda>r. snd r = None) rs)"

section \<open>Heap order and the sift steps of the spec, on lists\<close>

text \<open>
  The comparison of the spec, \<open>compare(a, b) \<le> 0\<close>: priority first, then the tie-break.
  \<open>key\<close> is the pair that the lexicographic order on pairs compares the same way.
  \<open>heap_order\<close> is the heap invariant of the spec over the indices \<open>2..Len\<close> of the
  array; \<open>hp\<close> is the same property over list positions.
\<close>

definition compare_le :: "('a, 'k::linorder) Item \<Rightarrow> ('a, 'k) Item \<Rightarrow> bool" where
  "compare_le a b \<longleftrightarrow> Priority a < Priority b \<or> (Priority a = Priority b \<and> Order a \<le> Order b)"

definition heap_order :: "('a, 'k::linorder) ItemHeap \<Rightarrow> bool" where
  "heap_order h =
     list_all (\<lambda>i. case (at h (parent i), at h i) of
                     (Some p, Some c) \<Rightarrow> compare_le p c
                   | _ \<Rightarrow> False) [2..Len h]"

fun returned :: "'x option list \<Rightarrow> 'x list" where
  "returned [] = []"
| "returned (None # rs) = returned rs"
| "returned (Some x # rs) = x # returned rs"

definition key :: "('a, 'k) Item \<Rightarrow> int \<times> 'k" where
  "key x = (Priority x, Order x)"

text \<open>
  The steps of the spec (4.1) on a list whose position 0 is the sentinel. \<open>sift_up\<close>:
  "repeated parent-comparison swaps until the heap invariant holds". \<open>sift_down\<close>: at each
  step take the smaller child (the only child if there is one, stop if there is none; the
  right child when neither is smaller) and swap with it if it is smaller than the item
  sifted, else stop. \<open>sift_down_unguarded\<close> is the sentence of the spec read to the
  letter, "swap with the smaller, repeat", without that last comparison.
\<close>

function sift_up :: "('a, 'k::linorder) ItemHeap \<Rightarrow> nat \<Rightarrow> ('a, 'k) ItemHeap" where
  "sift_up h j =
     (if 1 < j \<and> key (h ! j) < key (h ! (j div 2))
      then sift_up (h[j div 2 := h ! j, j := h ! (j div 2)]) (j div 2) else h)"
  by pat_completeness auto
termination
  by (relation "measure (\<lambda>(h, j). j)") auto

function sift_down :: "('a, 'k::linorder) ItemHeap \<Rightarrow> nat \<Rightarrow> ('a, 'k) ItemHeap" where
  "sift_down h j =
     (if length h \<le> 2 * j then h
      else let c = (if length h \<le> 2 * j + 1 then 2 * j
                    else if key (h ! (2 * j)) < key (h ! (2 * j + 1)) then 2 * j
                    else 2 * j + 1)
           in if key (h ! c) < key (h ! j)
              then sift_down (h[j := h ! c, c := h ! j]) c else h)"
  by pat_completeness auto
termination
proof (relation "measure (\<lambda>(h, j). length h - j)", goal_cases)
  case 1
  show ?case by simp
next
  case (2 h j c)
  then have "j < c \<and> c < length h" by (cases "j = 0") (auto split: if_splits)
  then show ?case by auto
qed

function sift_down_unguarded ::
  "('a, 'k::linorder) ItemHeap \<Rightarrow> nat \<Rightarrow> ('a, 'k) ItemHeap" where
  "sift_down_unguarded h j =
     (if j = 0 \<or> length h \<le> 2 * j then h
      else let c = (if length h \<le> 2 * j + 1 then 2 * j
                    else if key (h ! (2 * j)) < key (h ! (2 * j + 1)) then 2 * j
                    else 2 * j + 1)
           in sift_down_unguarded (h[j := h ! c, c := h ! j]) c)"
  by pat_completeness auto
termination
  by (relation "measure (\<lambda>(h, j). length h - j)") (auto split: if_splits)

declare sift_up.simps [simp del] sift_down.simps [simp del] sift_down_unguarded.simps [simp del]

definition hp :: "('a, 'k::linorder) ItemHeap \<Rightarrow> bool" where
  "hp h \<longleftrightarrow> (\<forall>i. 2 \<le> i \<and> i < length h \<longrightarrow> key (h ! (i div 2)) \<le> key (h ! i))"


text \<open>The heap order with one position excepted, as the sift loops keep it.\<close>

definition up_inv :: "('a, 'k::linorder) ItemHeap \<Rightarrow> nat \<Rightarrow> bool" where
  "up_inv h j \<longleftrightarrow>
     (\<forall>i. 2 \<le> i \<and> i < length h \<and> i \<noteq> j \<longrightarrow> key (h ! (i div 2)) \<le> key (h ! i)) \<and>
     (\<forall>i. 2 \<le> i \<and> i < length h \<and> i div 2 = j \<and> 2 \<le> j \<longrightarrow> key (h ! (j div 2)) \<le> key (h ! i))"

definition down_inv :: "('a, 'k::linorder) ItemHeap \<Rightarrow> nat \<Rightarrow> bool" where
  "down_inv h j \<longleftrightarrow>
     (\<forall>i. 2 \<le> i \<and> i < length h \<and> i div 2 \<noteq> j \<longrightarrow> key (h ! (i div 2)) \<le> key (h ! i)) \<and>
     (\<forall>i. 2 \<le> i \<and> i < length h \<and> i div 2 = j \<and> 2 \<le> j \<longrightarrow> key (h ! (j div 2)) \<le> key (h ! i))"

text \<open>
  \<open>push\<close>: append, then sift up from the last position. \<open>pop\<close>: swap the root with the
  last element, remove the last element, sift the new root down; the result is the old
  root and the remaining array.
\<close>

definition push_spec :: "('a, 'k::linorder) ItemHeap \<Rightarrow> ('a, 'k) Item \<Rightarrow> ('a, 'k) ItemHeap" where
  "push_spec h x = sift_up (h @ [x]) (length h)"

definition pop_rest :: "('a, 'k::linorder) ItemHeap \<Rightarrow> ('a, 'k) ItemHeap" where
  "pop_rest h =
     (let n = length h - 1; h1 = h[1 := h ! n, n := h ! 1]
      in sift_down (butlast h1) 1)"

definition pop_spec :: "('a, 'k::linorder) ItemHeap \<Rightarrow> ('a, 'k) Item \<times> ('a, 'k) ItemHeap" where
  "pop_spec h = (h ! 1, pop_rest h)"


definition pop_unguarded :: "('a, 'k::linorder) ItemHeap \<Rightarrow> ('a, 'k) Item \<times> ('a, 'k) ItemHeap" where
  "pop_unguarded h =
     (let n = length h - 1; h1 = h[1 := h ! n, n := h ! 1]
      in (h ! 1, sift_down_unguarded (butlast h1) 1))"

section \<open>Definitions used in the statements and proofs about the queue\<close>

text \<open>What \<open>Dequeue\<close> returns for a popped item, and the task an item was built from.\<close>

definition ret :: "('a, 'k) Item \<Rightarrow> 'a option \<times> error option" where
  "ret x = (Data x, None)"

text \<open>The representation invariant of a queue: the sentinel slot exists and the heap is
  in heap order.\<close>

definition qinv :: "'a Queue \<Rightarrow> bool" where
  "qinv q \<longleftrightarrow> heap q \<noteq> [] \<and> hp (heap q)"

definition task_of :: "('a, 'k) Item \<Rightarrow> 'a option \<times> int" where
  "task_of x = (Data x, Priority x)"


text \<open>
  To follow single items through interleaved enqueues and dequeues, \<open>label\<close> gives
  every \<open>Enqueue\<close> of a sequence a payload that names it: the sequence number that this
  \<open>Enqueue\<close> will assign, starting from the counter \<open>c\<close>, and its priority. The queue
  never inspects payloads.
\<close>

fun label :: "64 word \<Rightarrow> 'x queue_op list \<Rightarrow> (64 word \<times> int) queue_op list" where
  "label c [] = []"
| "label c (Enq d p # ops) = Enq (Some (c + 1, p)) p # label (c + 1) ops"
| "label c (Deq # ops) = Deq # label c ops"



section \<open>The sift loops keep the heap order\<close>

lemma hpD: "hp h \<Longrightarrow> 2 \<le> i \<Longrightarrow> i < length h \<Longrightarrow> key (h ! (i div 2)) \<le> key (h ! i)"
  by (simp add: hp_def)

lemma up_invD1:
  "up_inv h j \<Longrightarrow> 2 \<le> i \<Longrightarrow> i < length h \<Longrightarrow> i \<noteq> j \<Longrightarrow> key (h ! (i div 2)) \<le> key (h ! i)"
  by (simp add: up_inv_def)

lemma up_invD2:
  "up_inv h j \<Longrightarrow> 2 \<le> i \<Longrightarrow> i < length h \<Longrightarrow> i div 2 = j \<Longrightarrow> 2 \<le> j \<Longrightarrow> key (h ! (j div 2)) \<le> key (h ! i)"
  by (simp add: up_inv_def)

lemma up_inv_step:
  assumes inv: "up_inv h j" and j: "1 < j" "j < length h"
    and lt: "key (h ! j) < key (h ! (j div 2))"
  shows "up_inv (h[j div 2 := h ! j, j := h ! (j div 2)]) (j div 2)"
proof -
  let ?p = "j div 2"
  let ?h = "h[?p := h ! j, j := h ! ?p]"
  have pj: "?p < j" "1 \<le> ?p" "?p < length h" using j by auto
  have hj: "?h ! j = h ! ?p" using j by simp
  have hq: "?h ! ?p = h ! j" using pj by simp
  have hk: "\<And>k. k \<noteq> ?p \<Longrightarrow> k \<noteq> j \<Longrightarrow> ?h ! k = h ! k" by simp
  have a: "key (?h ! (i div 2)) \<le> key (?h ! i)"
    if i: "2 \<le> i" "i < length h" "i \<noteq> ?p" for i
  proof (cases "i = j")
    case True
    then show ?thesis using lt hj hq by simp
  next
    case ij: False
    show ?thesis
    proof (cases "i div 2 = j")
      case True
      have "key (h ! ?p) \<le> key (h ! i)" using up_invD2[OF inv i(1,2) True] j by simp
      then show ?thesis using True ij i hj hk by simp
    next
      case nj: False
      show ?thesis
      proof (cases "i div 2 = ?p")
        case True
        have "key (h ! ?p) \<le> key (h ! i)" using up_invD1[OF inv i(1,2) ij] True by simp
        then show ?thesis using True ij i hq hk lt by auto
      next
        case False
        then show ?thesis using up_invD1[OF inv i(1,2) ij] i ij nj hk by simp
      qed
    qed
  qed
  have b: "key (?h ! (?p div 2)) \<le> key (?h ! i)"
    if i: "2 \<le> i" "i < length h" "i div 2 = ?p" "2 \<le> ?p" for i
  proof -
    have "?p \<noteq> j" using pj by simp
    then have g: "key (h ! (?p div 2)) \<le> key (h ! ?p)"
      using up_invD1[OF inv i(4) pj(3)] by simp
    have ne: "?p div 2 \<noteq> ?p" "?p div 2 \<noteq> j" using i pj by auto
    have gg: "?h ! (?p div 2) = h ! (?p div 2)" using hk[OF ne] .
    show ?thesis
    proof (cases "i = j")
      case True
      then show ?thesis using g gg hj by simp
    next
      case False
      have "i \<noteq> ?p" using i by auto
      have "key (h ! ?p) \<le> key (h ! i)" using up_invD1[OF inv i(1,2) False] i(3) by simp
      then show ?thesis using g gg hk[OF \<open>i \<noteq> ?p\<close> False] by simp
    qed
  qed
  show ?thesis unfolding up_inv_def
  proof (intro conjI allI impI)
    fix i assume "2 \<le> i \<and> i < length ?h \<and> i \<noteq> ?p"
    then show "key (?h ! (i div 2)) \<le> key (?h ! i)" using a[of i] by simp
  next
    fix i assume "2 \<le> i \<and> i < length ?h \<and> i div 2 = ?p \<and> 2 \<le> ?p"
    then show "key (?h ! (?p div 2)) \<le> key (?h ! i)" using b[of i] by simp
  qed
qed

lemma hp_sift_up: "up_inv h j \<Longrightarrow> j < length h \<Longrightarrow> hp (sift_up h j)"
proof (induction h j rule: sift_up.induct)
  case (1 h j)
  let ?p = "j div 2"
  show ?case
  proof (cases "1 < j \<and> key (h ! j) < key (h ! ?p)")
    case False
    have "hp h" unfolding hp_def
    proof (intro allI impI)
      fix i assume i: "2 \<le> i \<and> i < length h"
      show "key (h ! (i div 2)) \<le> key (h ! i)"
      proof (cases "i = j")
        case True
        then show ?thesis using False i by auto
      next
        case False
        then show ?thesis using up_invD1[OF "1.prems"(1), of i] i by simp
      qed
    qed
    with False show ?thesis by (subst sift_up.simps) auto
  next
    case True
    have "hp (sift_up (h[?p := h ! j, j := h ! ?p]) ?p)"
      using "1.IH"[OF True] up_inv_step[OF "1.prems"(1) _ "1.prems"(2)] True "1.prems"(2)
      by simp
    with True show ?thesis by (subst sift_up.simps) simp
  qed
qed


lemma down_invD1:
  "down_inv h j \<Longrightarrow> 2 \<le> i \<Longrightarrow> i < length h \<Longrightarrow> i div 2 \<noteq> j \<Longrightarrow> key (h ! (i div 2)) \<le> key (h ! i)"
  by (simp add: down_inv_def)

lemma down_invD2:
  "down_inv h j \<Longrightarrow> 2 \<le> i \<Longrightarrow> i < length h \<Longrightarrow> i div 2 = j \<Longrightarrow> 2 \<le> j \<Longrightarrow> key (h ! (j div 2)) \<le> key (h ! i)"
  by (simp add: down_inv_def)

lemma down_inv_step:
  assumes inv: "down_inv h j" and j: "1 \<le> j" and c: "c div 2 = j" "c < length h"
    and cmin: "\<And>i. i div 2 = j \<Longrightarrow> i < length h \<Longrightarrow> key (h ! c) \<le> key (h ! i)"
    and lt: "key (h ! c) < key (h ! j)"
  shows "down_inv (h[j := h ! c, c := h ! j]) c"
proof -
  let ?h = "h[j := h ! c, c := h ! j]"
  have jc: "j < c" "2 \<le> c" "j < length h" using j c by auto
  have hc: "?h ! c = h ! j" using c by simp
  have hj: "?h ! j = h ! c" using jc by simp
  have hk: "\<And>k. k \<noteq> j \<Longrightarrow> k \<noteq> c \<Longrightarrow> ?h ! k = h ! k" by simp
  have a: "key (?h ! (i div 2)) \<le> key (?h ! i)"
    if i: "2 \<le> i" "i < length h" "i div 2 \<noteq> c" for i
  proof (cases "i = c")
    case True
    then show ?thesis using lt hc hj c(1) by simp
  next
    case ic: False
    show ?thesis
    proof (cases "i div 2 = j")
      case True
      then have "i \<noteq> j" using j by auto
      then have "?h ! i = h ! i" using hk ic by simp
      then show ?thesis using cmin[OF True i(2)] True hj by simp
    next
      case nj: False
      have pne: "?h ! (i div 2) = h ! (i div 2)" using hk[of "i div 2"] nj i(3) by simp
      show ?thesis
      proof (cases "i = j")
        case True
        have "key (h ! (j div 2)) \<le> key (h ! c)"
          using down_invD2[OF inv jc(2) c(2) c(1)] i True by simp
        then show ?thesis using True hj pne by simp
      next
        case False
        then have "?h ! i = h ! i" using hk ic by simp
        then show ?thesis using down_invD1[OF inv i(1,2) nj] pne by simp
      qed
    qed
  qed
  have b: "key (?h ! (c div 2)) \<le> key (?h ! i)"
    if i: "2 \<le> i" "i < length h" "i div 2 = c" for i
  proof -
    have "i \<noteq> j" "i \<noteq> c" "i div 2 \<noteq> j" using i jc by auto
    then have "?h ! i = h ! i" "key (h ! c) \<le> key (h ! i)"
      using hk down_invD1[OF inv i(1,2)] i(3) by auto
    then show ?thesis using c(1) hj by simp
  qed
  show ?thesis unfolding down_inv_def
  proof (intro conjI allI impI)
    fix i assume "2 \<le> i \<and> i < length ?h \<and> i div 2 \<noteq> c"
    then show "key (?h ! (i div 2)) \<le> key (?h ! i)" using a[of i] by simp
  next
    fix i assume "2 \<le> i \<and> i < length ?h \<and> i div 2 = c \<and> 2 \<le> c"
    then show "key (?h ! (c div 2)) \<le> key (?h ! i)" using b[of i] by simp
  qed
qed

lemma down_inv_stop:
  assumes inv: "down_inv h j"
    and ch: "\<And>i. 2 \<le> i \<Longrightarrow> i div 2 = j \<Longrightarrow> i < length h \<Longrightarrow> key (h ! j) \<le> key (h ! i)"
  shows "hp h"
  unfolding hp_def
proof (intro allI impI)
  fix i assume i: "2 \<le> i \<and> i < length h"
  show "key (h ! (i div 2)) \<le> key (h ! i)"
  proof (cases "i div 2 = j")
    case True
    then show ?thesis using ch[of i] i by simp
  next
    case False
    then show ?thesis using down_invD1[OF inv, of i] i by simp
  qed
qed

lemma hp_sift_down: "down_inv h j \<Longrightarrow> 1 \<le> j \<Longrightarrow> hp (sift_down h j)"
proof (induction h j rule: sift_down.induct)
  case (1 h j)
  show ?case
  proof (cases "length h \<le> 2 * j")
    case True
    have "hp h" using "1.prems" True by (intro down_inv_stop[of h j]) auto
    with True show ?thesis by (subst sift_down.simps) simp
  next
    case nl: False
    define c where "c = (if length h \<le> 2 * j + 1 then 2 * j
                    else if key (h ! (2 * j)) < key (h ! (2 * j + 1)) then 2 * j
                    else 2 * j + 1)"
    have c: "c div 2 = j" "c < length h" using nl by (auto simp: c_def)
    have cmin: "key (h ! c) \<le> key (h ! i)" if "i div 2 = j" "i < length h" for i
    proof -
      from that have "i = 2 * j \<or> i = 2 * j + 1" by auto
      then show ?thesis using that by (auto simp: c_def)
    qed
    show ?thesis
    proof (cases "key (h ! c) < key (h ! j)")
      case True
      have "hp (sift_down (h[j := h ! c, c := h ! j]) c)"
        using "1.IH"[OF nl c_def True] down_inv_step[OF "1.prems"(1,2) c cmin True] c "1.prems"(2)
        by auto
      with True nl show ?thesis by (subst sift_down.simps) (simp add: c_def Let_def)
    next
      case False
      have "hp h"
      proof (rule down_inv_stop[OF "1.prems"(1)])
        fix i assume "2 \<le> i" "i div 2 = j" "i < length h"
        then show "key (h ! j) \<le> key (h ! i)" using cmin[of i] False by auto
      qed
      with False nl show ?thesis by (subst sift_down.simps) (simp add: c_def Let_def)
    qed
  qed
qed


lemma at_int [simp]: "at h (int i) = (if i < length h then Some (h ! i) else None)"
  by (simp add: at_def)

lemma Less_int:
  "i < length h \<Longrightarrow> j < length h \<Longrightarrow> Less h (int i) (int j) = Some (key (h ! i) < key (h ! j))"
  by (auto simp: Less_def key_def)

lemma Swap_int:
  "i < length h \<Longrightarrow> j < length h \<Longrightarrow> Swap h (int i) (int j) = Some (h[i := h ! j, j := h ! i])"
  by (simp add: Swap_def)

lemma parent_int [simp]: "parent (int j) = int (j div 2)"
  by (simp add: parent_def zdiv_int)

lemma up_eq: "j < length h \<Longrightarrow> up h (int j) = Some (sift_up h j)"
proof (induction h j rule: sift_up.induct)
  case (1 h j)
  have p: "j div 2 < length h" using "1.prems" by simp
  show ?case
  proof (cases "1 < j \<and> key (h ! j) < key (h ! (j div 2))")
    case True
    then have "up (h[j div 2 := h ! j, j := h ! (j div 2)]) (int (j div 2))
        = Some (sift_up (h[j div 2 := h ! j, j := h ! (j div 2)]) (j div 2))"
      using "1.IH" p by simp
    then show ?thesis using True "1.prems" p
      by (subst up.simps, subst sift_up.simps) (simp add: Less_int Swap_int Let_def)
  next
    case False
    then show ?thesis using "1.prems" p
      by (subst up.simps, subst sift_up.simps) (auto simp: Less_int Let_def)
  qed
qed

lemma down_eq: "h \<noteq> [] \<Longrightarrow> down h (int j) = Some (sift_down h j)"
proof (induction h j rule: sift_down.induct)
  case (1 h j)
  show ?case
  proof (cases "length h \<le> 2 * j")
    case True
    then show ?thesis
      by (subst down.simps, subst sift_down.simps) (simp add: Len_def leftChild_def)
  next
    case nl: False
    define c where "c = (if length h \<le> 2 * j + 1 then 2 * j
                    else if key (h ! (2 * j)) < key (h ! (2 * j + 1)) then 2 * j
                    else 2 * j + 1)"
    have c: "c < length h" "j < length h" using nl by (auto simp: c_def)
    have sc: "(if rightChild (int j) > Len h then Some (leftChild (int j))
           else do { b \<leftarrow> Less h (leftChild (int j)) (rightChild (int j));
                     Some (if b then leftChild (int j) else rightChild (int j)) }) = Some (int c)"
    proof (cases "length h \<le> 2 * j + 1")
      case True
      then show ?thesis by (auto simp: c_def Len_def leftChild_def rightChild_def)
    next
      case False
      have "leftChild (int j) = int (2 * j)" "rightChild (int j) = int (2 * j + 1)"
        by (simp_all add: leftChild_def rightChild_def)
      then show ?thesis using False Less_int[of "2 * j" h "2 * j + 1"]
        by (auto simp: c_def Len_def)
    qed
    have cn: "int c \<le> Len h" using c by (simp add: Len_def)
    have nl': "\<not> leftChild (int j) > Len h" using nl by (simp add: Len_def leftChild_def)
    have eqP: "sift_down h j =
        (if key (h ! c) < key (h ! j) then sift_down (h[j := h ! c, c := h ! j]) c else h)"
      using nl by (subst sift_down.simps) (simp add: c_def Let_def)
    have eqD: "down h (int j) =
        (if key (h ! c) < key (h ! j) then down (h[j := h ! c, c := h ! j]) (int c) else Some h)"
      using nl' cn c by (subst down.simps) (simp add: Let_def sc Less_int Swap_int)
    show ?thesis
    proof (cases "key (h ! c) < key (h ! j)")
      case True
      have "down (h[j := h ! c, c := h ! j]) (int c) = Some (sift_down (h[j := h ! c, c := h ! j]) c)"
        using "1.IH"[OF nl c_def True] "1.prems" by simp
      then show ?thesis using True eqP eqD by simp
    next
      case False
      then show ?thesis using eqP eqD by simp
    qed
  qed
qed


lemma length_sift_up [simp]: "length (sift_up h j) = length h"
proof (induction h j rule: sift_up.induct)
  case (1 h j)
  then show ?case by (subst sift_up.simps) simp
qed

lemma length_sift_down [simp]: "length (sift_down h j) = length h"
proof (induction h j rule: sift_down.induct)
  case (1 h j)
  then show ?case by (subst sift_down.simps) (simp add: Let_def)
qed

lemma sift_up_nth0 [simp]: "sift_up h j ! 0 = h ! 0"
proof (induction h j rule: sift_up.induct)
  case (1 h j)
  show ?case
  proof (cases "1 < j \<and> key (h ! j) < key (h ! (j div 2))")
    case True
    then have "j div 2 \<noteq> 0" "j \<noteq> 0" by auto
    then show ?thesis using True "1.IH" by (subst sift_up.simps) simp
  next
    case False
    then show ?thesis by (subst sift_up.simps) auto
  qed
qed

lemma sift_down_nth0: "1 \<le> j \<Longrightarrow> sift_down h j ! 0 = h ! 0"
proof (induction h j rule: sift_down.induct)
  case (1 h j)
  then show ?case by (subst sift_down.simps) (auto simp: Let_def)
qed

lemma mset_sift_up: "j < length h \<Longrightarrow> mset (sift_up h j) = mset h"
proof (induction h j rule: sift_up.induct)
  case (1 h j)
  show ?case
  proof (cases "1 < j \<and> key (h ! j) < key (h ! (j div 2))")
    case True
    have p: "j div 2 < length h" using "1.prems" by simp
    have "mset (h[j div 2 := h ! j, j := h ! (j div 2)]) = mset h"
      using mset_swap[OF "1.prems" p] .
    then show ?thesis using True "1.IH" p by (subst sift_up.simps) simp
  next
    case False
    then show ?thesis by (subst sift_up.simps) auto
  qed
qed

lemma mset_sift_down: "mset (sift_down h j) = mset h"
proof (induction h j rule: sift_down.induct)
  case (1 h j)
  show ?case
  proof (cases "length h \<le> 2 * j")
    case True
    then show ?thesis by (subst sift_down.simps) simp
  next
    case nl: False
    define c where "c = (if length h \<le> 2 * j + 1 then 2 * j
                    else if key (h ! (2 * j)) < key (h ! (2 * j + 1)) then 2 * j
                    else 2 * j + 1)"
    have c: "c < length h" "j < length h" using nl by (auto simp: c_def)
    have eqP: "sift_down h j =
        (if key (h ! c) < key (h ! j) then sift_down (h[j := h ! c, c := h ! j]) c else h)"
      using nl by (subst sift_down.simps) (simp add: c_def Let_def)
    have "mset (h[j := h ! c, c := h ! j]) = mset h" using mset_swap[OF c] .
    then show ?thesis using eqP "1.IH"[OF nl c_def] by simp
  qed
qed

lemma pop_rest_take:
  "pop_rest h = sift_down (take (length h - 1) (h[1 := h ! (length h - 1), length h - 1 := h ! 1])) 1"
  by (simp add: pop_rest_def Let_def butlast_conv_take)

lemma Push_eq: "Push h x = Some (push_spec h x)"
  using up_eq[of "length h" "h @ [x]"] by (simp add: Push_def push_spec_def Len_def Let_def)

lemma Pop_one: "length h = 1 \<Longrightarrow> Pop h = Some (None, h)"
  by (simp add: Pop_def Empty_def Len_def)

lemma Pop_eq: "2 \<le> length h \<Longrightarrow> Pop h = Some (Some (h ! 1), pop_rest h)"
proof -
  assume l: "2 \<le> length h"
  define n where "n = length h - 1"
  have n: "Len h = int n" "1 \<le> n" "n < length h" using l by (auto simp: n_def Len_def)
  have sw: "Swap h 1 (int n) = Some (h[1 := h ! n, n := h ! 1])"
    using Swap_int[of 1 h n] n by simp
  have ne: "take n (h[1 := h ! n, n := h ! 1]) \<noteq> []" using n by auto
  have pp: "pop_rest h = sift_down (take n (h[1 := h ! n, n := h ! 1])) 1"
    by (simp add: pop_rest_take n_def)
  have it: "(h[1 := h ! n, n := h ! 1]) ! n = h ! 1" using n by simp
  have "Pop h = Some (Some ((h[1 := h ! n, n := h ! 1]) ! n), pop_rest h)"
    unfolding pp using n down_eq[OF ne, of 1]
    by (simp add: Pop_def Empty_def Let_def sw slice_to_def)
  then show ?thesis using it by simp
qed


lemma length_push_spec [simp]: "length (push_spec h x) = Suc (length h)"
  by (simp add: push_spec_def)

lemma mset_push_spec [simp]: "mset (push_spec h x) = add_mset x (mset h)"
  by (simp add: push_spec_def mset_sift_up)

lemma push_spec_nth0 [simp]: "h \<noteq> [] \<Longrightarrow> push_spec h x ! 0 = h ! 0"
  by (simp add: push_spec_def nth_append)

lemma hp_push_spec: "hp h \<Longrightarrow> h \<noteq> [] \<Longrightarrow> hp (push_spec h x)"
  unfolding push_spec_def
proof (rule hp_sift_up)
  assume h: "hp h" "h \<noteq> []"
  show "up_inv (h @ [x]) (length h)"
    unfolding up_inv_def
  proof (intro conjI allI impI)
    fix i assume "2 \<le> i \<and> i < length (h @ [x]) \<and> i \<noteq> length h"
    then have "i < length h" "i div 2 < length h" "2 \<le> i" by auto
    then show "key ((h @ [x]) ! (i div 2)) \<le> key ((h @ [x]) ! i)"
      using hpD[OF h(1), of i] by (simp add: nth_append)
  next
    fix i assume "2 \<le> i \<and> i < length (h @ [x]) \<and> i div 2 = length h \<and> 2 \<le> length h"
    then have False by auto
    then show "key ((h @ [x]) ! (length h div 2)) \<le> key ((h @ [x]) ! i)" ..
  qed
qed simp

lemma length_pop_rest [simp]: "length (pop_rest h) = length h - 1"
  by (simp add: pop_rest_take)

lemma pop_rest_nth0: "2 \<le> length h \<Longrightarrow> pop_rest h ! 0 = h ! 0"
  by (simp add: pop_rest_take sift_down_nth0)

lemma mset_pop_rest: "2 \<le> length h \<Longrightarrow> add_mset (h ! 1) (mset (pop_rest h)) = mset h"
proof -
  assume l: "2 \<le> length h"
  define n where "n = length h - 1"
  define g where "g = h[1 := h ! n, n := h ! 1]"
  have n: "1 < length h" "n < length h" using l by (auto simp: n_def)
  have "mset g = mset h" unfolding g_def using mset_swap[OF n(2) n(1)] .
  moreover have "g = take n g @ [h ! 1]"
  proof -
    have "length g = Suc n" "g ! n = h ! 1" using n by (auto simp: g_def n_def)
    then show ?thesis by (metis lessI take_Suc_conv_app_nth take_all order_refl)
  qed
  ultimately have "add_mset (h ! 1) (mset (take n g)) = mset h"
    by (metis mset.simps(2) mset_append union_mset_add_mset_right add.right_neutral mset.simps(1))
  then show ?thesis by (simp add: pop_rest_take mset_sift_down n_def g_def)
qed

lemma hp_pop_rest: "hp h \<Longrightarrow> 2 \<le> length h \<Longrightarrow> hp (pop_rest h)"
  unfolding pop_rest_take
proof (rule hp_sift_down)
  assume h: "hp h" and l: "2 \<le> length h"
  define n where "n = length h - 1"
  let ?g = "take n (h[1 := h ! n, n := h ! 1])"
  show "down_inv (take (length h - 1) (h[1 := h ! (length h - 1), length h - 1 := h ! 1])) 1"
    unfolding down_inv_def n_def[symmetric]
  proof (intro conjI allI impI)
    fix i assume i: "2 \<le> i \<and> i < length ?g \<and> i div 2 \<noteq> 1"
    then have "i < n" "i \<noteq> 1" "i div 2 < n" "i div 2 \<noteq> 1" "i < length h" by (auto simp: n_def)
    then have "?g ! i = h ! i" "?g ! (i div 2) = h ! (i div 2)" by simp_all
    then show "key (?g ! (i div 2)) \<le> key (?g ! i)"
      using hpD[OF h, of i] i \<open>i < length h\<close> by simp
  next
    fix i assume "2 \<le> i \<and> i < length ?g \<and> i div 2 = 1 \<and> (2::nat) \<le> 1"
    then have False by simp
    then show "key (?g ! (1 div 2)) \<le> key (?g ! i)" ..
  qed
qed simp

lemma hp_min: "hp h \<Longrightarrow> 1 \<le> i \<Longrightarrow> i < length h \<Longrightarrow> key (h ! 1) \<le> key (h ! i)"
proof (induction i rule: less_induct)
  case (less i)
  show ?case
  proof (cases "i = 1")
    case True
    then show ?thesis by simp
  next
    case False
    then have "key (h ! 1) \<le> key (h ! (i div 2))" using less by auto
    also have "\<dots> \<le> key (h ! i)" using hpD[OF less.prems(1), of i] less.prems False by simp
    finally show ?thesis .
  qed
qed



section \<open>Empty heap and empty queue\<close>

lemma Pop_Empty: "Empty h \<Longrightarrow> Pop h = Some (None, h)"
  by (simp add: Pop_def)

lemma Dequeue_Empty: "Queue_Empty q \<Longrightarrow> Dequeue q = Some ((None, Some EmptyQueue), q)"
  by (simp add: Dequeue_def Queue_Empty_def Pop_Empty)

lemma NewQueue_Empty: "Queue_Empty (NewQueue :: 'a Queue)" "Queue_Len (NewQueue :: 'a Queue) = 0"
  by (simp_all add: Queue_Empty_def Queue_Len_def NewQueue_def NewHeap_def Empty_def Len_def)

text \<open>
  C5. \<open>Dequeue\<close> on an empty queue, and so on a new queue, returns normally (no panic)
  with the error value \<open>EmptyQueue\<close>; \<open>Pop\<close> on an empty heap returns \<open>nil\<close>; a new queue
  is empty and its length is 0.
\<close>

theorem Dequeue_empty_signals:
  fixes q :: "'a Queue" and h :: "('a, 'k::linorder) ItemHeap"
  shows "(Queue_Empty q \<longrightarrow> (\<exists>d q'. Dequeue q = Some ((d, Some EmptyQueue), q')))
   \<and> (Empty h \<longrightarrow> (\<exists>h'. Pop h = Some (None, h')))
   \<and> (\<exists>d q'. Dequeue (NewQueue :: 'a Queue) = Some ((d, Some EmptyQueue), q'))
   \<and> Queue_Empty (NewQueue :: 'a Queue) \<and> Queue_Len (NewQueue :: 'a Queue) = 0"
  using NewQueue_Empty[where 'a = 'a] Dequeue_Empty[of "NewQueue :: 'a Queue"]
  by (auto simp: Dequeue_Empty Pop_Empty)

theorem Dequeue_empty_signals_witness:
  "Queue_Empty (mockNewQueue 7 :: nat Queue)
   \<and> (\<exists>d q'. Dequeue (mockNewQueue 7 :: nat Queue) = Some ((d, Some EmptyQueue), q'))
   \<and> Empty (NewHeap :: (nat, nat) ItemHeap)
   \<and> (\<exists>h'. Pop (NewHeap :: (nat, nat) ItemHeap) = Some (None, h'))"
  using Dequeue_empty_signals[of "mockNewQueue 7 :: nat Queue" "NewHeap :: (nat, nat) ItemHeap"]
  by (simp add: Queue_Empty_def mockNewQueue_def NewHeap_def Empty_def Len_def NewQueue_def)

text \<open>
  C10. \<open>Dequeue\<close> on an empty queue returns the payload \<open>nil\<close> together with the error, and
  the queue it leaves is the queue it found: the same heap array, of the same length, and
  the same counter. \<open>Pop\<close> on an empty heap leaves the array as it was.
\<close>

theorem Dequeue_empty_unchanged:
  fixes q :: "'a Queue" and h :: "('a, 'k::linorder) ItemHeap"
  shows "(Queue_Empty q \<longrightarrow>
      (\<exists>q'. Dequeue q = Some ((None, Some EmptyQueue), q') \<and> heap q' = heap q
         \<and> length (heap q') = length (heap q) \<and> count_q q' = count_q q \<and> q' = q))
   \<and> (Empty h \<longrightarrow> Pop h = Some (None, h))"
  by (simp add: Dequeue_Empty Pop_Empty)

theorem Dequeue_empty_unchanged_witness:
  "Queue_Empty (mockNewQueue 7 :: nat Queue)
   \<and> Dequeue (mockNewQueue 7 :: nat Queue) = Some ((None, Some EmptyQueue), mockNewQueue 7)
   \<and> Empty (NewHeap :: (nat, nat) ItemHeap)
   \<and> Pop (NewHeap :: (nat, nat) ItemHeap) = Some (None, NewHeap)"
  using Dequeue_empty_unchanged[of "mockNewQueue 7 :: nat Queue" "NewHeap :: (nat, nat) ItemHeap"]
  by (simp add: Queue_Empty_def mockNewQueue_def NewHeap_def Empty_def Len_def)

section \<open>Sequences of heap operations\<close>

lemma compare_le_key: "compare_le a b \<longleftrightarrow> key a \<le> key b"
  by (auto simp: compare_le_def key_def)

lemma heap_order_hp: "h \<noteq> [] \<Longrightarrow> heap_order h \<longleftrightarrow> hp h"
proof
  assume ne: "h \<noteq> []" and ho: "heap_order h"
  show "hp h" unfolding hp_def
  proof (intro allI impI)
    fix i assume i: "2 \<le> i \<and> i < length h"
    then have "int i \<in> set [2..Len h]" by (simp add: Len_def)
    with ho have "case (at h (parent (int i)), at h (int i)) of
        (Some p, Some c) \<Rightarrow> compare_le p c | _ \<Rightarrow> False"
      unfolding heap_order_def list_all_iff by blast
    then show "key (h ! (i div 2)) \<le> key (h ! i)"
      using i by (simp add: compare_le_key split: if_splits)
  qed
next
  assume ne: "h \<noteq> []" and hp: "hp h"
  show "heap_order h" unfolding heap_order_def list_all_iff
  proof
    fix i assume "i \<in> set [2..Len h]"
    then have i: "2 \<le> i" "i \<le> int (length h) - 1" by (simp_all add: Len_def)
    define k where "k = nat i"
    have k: "i = int k" "2 \<le> k" "k < length h" using i by (auto simp: k_def)
    have "k div 2 < length h" using k by simp
    then show "case (at h (parent i), at h i) of
        (Some p, Some c) \<Rightarrow> compare_le p c | _ \<Rightarrow> False"
      using hpD[OF hp k(2,3)] k by (simp add: compare_le_key)
  qed
qed

lemma heap_order_nth:
  "heap_order h \<longleftrightarrow>
     (\<forall>i. 2 \<le> i \<and> i \<le> Len h \<longrightarrow> (\<exists>p c. at h (parent i) = Some p \<and> at h i = Some c \<and> compare_le p c))"
proof -
  have "(case (at h (parent i), at h i) of (Some p, Some c) \<Rightarrow> compare_le p c | _ \<Rightarrow> False)
     \<longleftrightarrow> (\<exists>p c. at h (parent i) = Some p \<and> at h i = Some c \<and> compare_le p c)" for i
    by (cases "at h (parent i)"; cases "at h i") simp_all
  then show ?thesis unfolding heap_order_def list_all_iff by auto
qed


lemma mset_tl: "h \<noteq> [] \<Longrightarrow> mset h = add_mset (h ! 0) (mset (tl h))"
  by (cases h) simp_all

lemma mset_tl_push_spec: "h \<noteq> [] \<Longrightarrow> mset (tl (push_spec h x)) = add_mset x (mset (tl h))"
proof -
  assume ne: "h \<noteq> []"
  have "push_spec h x \<noteq> []" by (metis length_push_spec length_0_conv nat.simps(3))
  from mset_tl[OF this] mset_tl[OF ne] ne show ?thesis by simp
qed

lemma mset_tl_pop_rest:
  "2 \<le> length h \<Longrightarrow> add_mset (h ! 1) (mset (tl (pop_rest h))) = mset (tl h)"
proof -
  assume l: "2 \<le> length h"
  then have ne: "h \<noteq> []" "pop_rest h \<noteq> []" by (auto simp: length_0_conv[symmetric] simp del: length_0_conv)
  from mset_tl[OF ne(1)] mset_tl[OF ne(2)] mset_pop_rest[OF l] pop_rest_nth0[OF l]
  show ?thesis by simp
qed

text \<open>The representation invariant: the sentinel slot exists and the heap order holds.\<close>

lemma exec_inv:
  "h0 \<noteq> [] \<Longrightarrow> hp h0 \<Longrightarrow>
   \<exists>rs h. exec ops h0 = Some (rs, h) \<and> h \<noteq> [] \<and> hp h \<and> h ! 0 = h0 ! 0
     \<and> mset (tl h) + mset (returned rs) = mset (tl h0) + mset (pushed ops)
     \<and> length h + length (returned rs) = length h0 + length (pushed ops)"
proof (induction ops arbitrary: h0)
  case Nil
  then show ?case by simp
next
  case (Cons a ops)
  show ?case
  proof (cases a)
    case (OpPush x)
    have ne: "push_spec h0 x \<noteq> []" by (metis length_push_spec length_0_conv nat.simps(3))
    from Cons.IH[OF ne hp_push_spec[OF Cons.prems(2,1)]] obtain rs h where
      e: "exec ops (push_spec h0 x) = Some (rs, h)" "h \<noteq> []" "hp h" "h ! 0 = push_spec h0 x ! 0"
         "mset (tl h) + mset (returned rs) = mset (tl (push_spec h0 x)) + mset (pushed ops)"
         "length h + length (returned rs) = length (push_spec h0 x) + length (pushed ops)"
      by blast
    then show ?thesis using OpPush Cons.prems
      by (simp add: Push_eq mset_tl_push_spec)
  next
    case OpPop
    consider "length h0 = 1" | "2 \<le> length h0" using Cons.prems(1)
      by (cases h0) (auto simp: Suc_le_eq)
    then show ?thesis
    proof cases
      case 1
      from Cons.IH[OF Cons.prems] obtain rs h where
        "exec ops h0 = Some (rs, h)" "h \<noteq> []" "hp h" "h ! 0 = h0 ! 0"
        "mset (tl h) + mset (returned rs) = mset (tl h0) + mset (pushed ops)"
        "length h + length (returned rs) = length h0 + length (pushed ops)"
        by blast
      then show ?thesis using OpPop 1 by (simp add: Pop_one)
    next
      case 2
      then have ne: "pop_rest h0 \<noteq> []" by (auto simp: length_0_conv[symmetric] simp del: length_0_conv)
      from Cons.IH[OF ne hp_pop_rest[OF Cons.prems(2) 2]] obtain rs h where
        e: "exec ops (pop_rest h0) = Some (rs, h)" "h \<noteq> []" "hp h" "h ! 0 = pop_rest h0 ! 0"
        "mset (tl h) + mset (returned rs) = mset (tl (pop_rest h0)) + mset (pushed ops)"
        "length h + length (returned rs) = length (pop_rest h0) + length (pushed ops)"
        by blast
      have "mset (tl h) + mset (returned (Some (h0 ! 1) # rs)) = mset (tl h0) + mset (pushed ops)"
        using e(5) mset_tl_pop_rest[OF 2] by (simp flip: mset_tl_pop_rest[OF 2])
      then show ?thesis using OpPop 2 e by (simp add: Pop_eq pop_rest_nth0)
    qed
  qed
qed

lemma NewHeap_inv: "NewHeap \<noteq> []" "hp NewHeap"
  by (simp_all add: NewHeap_def hp_def)

section \<open>Heap order after any sequence of pushes and pops\<close>

text \<open>
  C3. After every sequence of \<open>Push\<close> and \<open>Pop\<close> calls on a new heap (no call panics), the
  heap order holds: for every index \<open>i\<close> with \<open>2 \<le> i \<le> Len\<close>, the item at \<open>parent i\<close>
  compares less-or-equal to the item at \<open>i\<close>, by priority first and tie-break second.
  Every prefix of a sequence is a sequence, so this holds at every point of a run.
\<close>

theorem heap_order_after_push_pop:
  fixes ops :: "('a, 'k::{linorder,zero}) heap_op list"
  shows "\<exists>rs h. exec ops NewHeap = Some (rs, h) \<and>
    (\<forall>i. 2 \<le> i \<and> i \<le> Len h \<longrightarrow>
       (\<exists>p c. at h (parent i) = Some p \<and> at h i = Some c \<and> compare_le p c))"
proof -
  from exec_inv[OF NewHeap_inv, of ops] obtain rs h where
    e: "exec ops (NewHeap :: ('a, 'k) ItemHeap) = Some (rs, h)" "h \<noteq> []" "hp h"
    by blast
  from e(2,3) have "heap_order h" by (simp add: heap_order_hp)
  with e(1) show ?thesis unfolding heap_order_nth by blast
qed

theorem heap_order_after_push_pop_witness:
  "\<exists>rs h. exec [OpPush \<lparr>Priority = 5, Data = Some 0, Order = 1\<rparr>,
                 OpPush \<lparr>Priority = 3, Data = Some 1, Order = 2\<rparr>,
                 OpPush \<lparr>Priority = 4, Data = Some 2, Order = 3\<rparr>,
                 OpPop,
                 OpPush \<lparr>Priority = 1, Data = Some 3, Order = 4\<rparr>]
            (NewHeap :: (nat, nat) ItemHeap) = Some (rs, h)
     \<and> h = [\<lparr>Priority = 0, Data = None, Order = 0\<rparr>,
            \<lparr>Priority = 1, Data = Some 3, Order = 4\<rparr>,
            \<lparr>Priority = 5, Data = Some 0, Order = 1\<rparr>,
            \<lparr>Priority = 4, Data = Some 2, Order = 3\<rparr>]
     \<and> (2::int) \<le> Len h
     \<and> (\<exists>p c. at h (parent 2) = Some p \<and> at h 2 = Some c \<and> compare_le p c)"
proof -
  let ?ops = "[OpPush \<lparr>Priority = 5, Data = Some 0, Order = 1\<rparr>,
                 OpPush \<lparr>Priority = 3, Data = Some 1, Order = 2\<rparr>,
                 OpPush \<lparr>Priority = 4, Data = Some 2, Order = 3\<rparr>,
                 OpPop,
                 OpPush \<lparr>Priority = 1, Data = Some (3::nat), Order = 4::nat\<rparr>]"
  let ?h = "[\<lparr>Priority = 0, Data = None, Order = 0\<rparr>,
            \<lparr>Priority = 1, Data = Some 3, Order = 4\<rparr>,
            \<lparr>Priority = 5, Data = Some 0, Order = 1\<rparr>,
            \<lparr>Priority = 4, Data = Some (2::nat), Order = 3::nat\<rparr>]"
  have e: "exec ?ops NewHeap = Some ([Some \<lparr>Priority = 3, Data = Some 1, Order = 2\<rparr>], ?h)"
    by code_simp
  from heap_order_after_push_pop[of ?ops] obtain rs h where
    a: "exec ?ops NewHeap = Some (rs, h)"
    and b: "\<forall>i. 2 \<le> i \<and> i \<le> Len h \<longrightarrow>
       (\<exists>p c. at h (parent i) = Some p \<and> at h i = Some c \<and> compare_le p c)"
    by blast
  from a e have h: "h = ?h" by simp
  then have l: "(2::int) \<le> Len h" by (simp add: Len_def)
  with b have "\<exists>p c. at h (parent 2) = Some p \<and> at h 2 = Some c \<and> compare_le p c" by simp
  with a h l show ?thesis by (intro exI[of _ rs] exI[of _ h] conjI)
qed

section \<open>The sentinel\<close>




section \<open>Pop and the steps of the spec\<close>

text \<open>
  C4, as stated, read to the letter: the sift after a pop swaps the new root with its
  smaller child at every step until it has no child. On the heap with priorities 1, 3, 2
  the code returns the root and leaves 2 above 3: the only child, 3, is not smaller than
  2, so \<open>down\<close> stops. The steps as stated would swap them and break the heap order.
\<close>

theorem Pop_unguarded_counterexample:
  "heap_order [\<lparr>Priority = 0, Data = None, Order = 0\<rparr>,
               \<lparr>Priority = 1, Data = Some 0, Order = 1\<rparr>,
               \<lparr>Priority = 3, Data = Some 1, Order = 2\<rparr>,
               \<lparr>Priority = 2, Data = Some (2::nat), Order = 3::nat\<rparr>]
   \<and> Pop [\<lparr>Priority = 0, Data = None, Order = 0\<rparr>,
          \<lparr>Priority = 1, Data = Some 0, Order = 1\<rparr>,
          \<lparr>Priority = 3, Data = Some 1, Order = 2\<rparr>,
          \<lparr>Priority = 2, Data = Some (2::nat), Order = 3::nat\<rparr>]
       = Some (Some \<lparr>Priority = 1, Data = Some 0, Order = 1\<rparr>,
               [\<lparr>Priority = 0, Data = None, Order = 0\<rparr>,
                \<lparr>Priority = 2, Data = Some 2, Order = 3\<rparr>,
                \<lparr>Priority = 3, Data = Some 1, Order = 2\<rparr>])
   \<and> pop_unguarded [\<lparr>Priority = 0, Data = None, Order = 0\<rparr>,
          \<lparr>Priority = 1, Data = Some 0, Order = 1\<rparr>,
          \<lparr>Priority = 3, Data = Some 1, Order = 2\<rparr>,
          \<lparr>Priority = 2, Data = Some (2::nat), Order = 3::nat\<rparr>]
       = (\<lparr>Priority = 1, Data = Some 0, Order = 1\<rparr>,
               [\<lparr>Priority = 0, Data = None, Order = 0\<rparr>,
                \<lparr>Priority = 3, Data = Some 1, Order = 2\<rparr>,
                \<lparr>Priority = 2, Data = Some 2, Order = 3\<rparr>])
   \<and> \<not> heap_order [\<lparr>Priority = 0, Data = None, Order = 0\<rparr>,
                \<lparr>Priority = 3, Data = Some 1, Order = 2\<rparr>,
                \<lparr>Priority = 2, Data = Some (2::nat), Order = 3::nat\<rparr>]
   \<and> Pop [\<lparr>Priority = 0, Data = None, Order = 0\<rparr>,
          \<lparr>Priority = 1, Data = Some 0, Order = 1\<rparr>,
          \<lparr>Priority = 3, Data = Some 1, Order = 2\<rparr>,
          \<lparr>Priority = 2, Data = Some (2::nat), Order = 3::nat\<rparr>]
       \<noteq> Some (Some (fst (pop_unguarded
                 [\<lparr>Priority = 0, Data = None, Order = 0\<rparr>,
                  \<lparr>Priority = 1, Data = Some 0, Order = 1\<rparr>,
                  \<lparr>Priority = 3, Data = Some 1, Order = 2\<rparr>,
                  \<lparr>Priority = 2, Data = Some (2::nat), Order = 3::nat\<rparr>])),
               snd (pop_unguarded
                 [\<lparr>Priority = 0, Data = None, Order = 0\<rparr>,
                  \<lparr>Priority = 1, Data = Some 0, Order = 1\<rparr>,
                  \<lparr>Priority = 3, Data = Some 1, Order = 2\<rparr>,
                  \<lparr>Priority = 2, Data = Some (2::nat), Order = 3::nat\<rparr>]))"
  by code_simp

text \<open>
  C4, amended. For every non-empty heap in heap order, \<open>Pop\<close> returns normally, and what
  it returns and leaves is what these steps give: swap the root with the last element,
  remove the last element, then sift the new root down, at each step taking the smaller
  child (the only child if there is one, stopping if there is none) and swapping with it
  if it compares less than the item sifted, stopping otherwise. The item returned is the
  original root, and it compares less-or-equal to every item of the heap.
\<close>

theorem Pop_refines_pop_spec:
  fixes h :: "('a, 'k::linorder) ItemHeap"
  assumes "0 < Len h" and "heap_order h"
  shows "\<exists>root rest. at h 1 = Some root \<and> pop_spec h = (root, rest)
     \<and> Pop h = Some (Some root, rest)
     \<and> (\<forall>i. 1 \<le> i \<and> i \<le> Len h \<longrightarrow> (\<exists>x. at h i = Some x \<and> compare_le root x))"
proof -
  from assms(1) have l: "2 \<le> length h" and ne: "h \<noteq> []" by (auto simp: Len_def)
  from assms(2) ne have hp: "hp h" by (simp add: heap_order_hp)
  have "\<exists>x. at h i = Some x \<and> compare_le (h ! 1) x" if "1 \<le> i \<and> i \<le> Len h" for i
  proof -
    define k where "k = nat i"
    have k: "i = int k" "1 \<le> k" "k < length h" using that by (auto simp: k_def Len_def)
    show ?thesis using hp_min[OF hp k(2,3)] k by (simp add: compare_le_key)
  qed
  moreover have "at h 1 = Some (h ! 1)" using l by (simp add: at_def)
  ultimately show ?thesis using Pop_eq[OF l] by (simp add: pop_spec_def)
qed

theorem Pop_refines_pop_spec_witness:
  "(0::int) < Len [\<lparr>Priority = 0, Data = None, Order = 0\<rparr>,
               \<lparr>Priority = 1, Data = Some 0, Order = 1\<rparr>,
               \<lparr>Priority = 3, Data = Some 1, Order = 2\<rparr>,
               \<lparr>Priority = 2, Data = Some (2::nat), Order = 3::nat\<rparr>]
   \<and> heap_order [\<lparr>Priority = 0, Data = None, Order = 0\<rparr>,
               \<lparr>Priority = 1, Data = Some 0, Order = 1\<rparr>,
               \<lparr>Priority = 3, Data = Some 1, Order = 2\<rparr>,
               \<lparr>Priority = 2, Data = Some (2::nat), Order = 3::nat\<rparr>]
   \<and> (\<exists>root rest.
        pop_spec [\<lparr>Priority = 0, Data = None, Order = 0\<rparr>,
               \<lparr>Priority = 1, Data = Some 0, Order = 1\<rparr>,
               \<lparr>Priority = 3, Data = Some 1, Order = 2\<rparr>,
               \<lparr>Priority = 2, Data = Some (2::nat), Order = 3::nat\<rparr>] = (root, rest)
      \<and> Pop [\<lparr>Priority = 0, Data = None, Order = 0\<rparr>,
               \<lparr>Priority = 1, Data = Some 0, Order = 1\<rparr>,
               \<lparr>Priority = 3, Data = Some 1, Order = 2\<rparr>,
               \<lparr>Priority = 2, Data = Some (2::nat), Order = 3::nat\<rparr>] = Some (Some root, rest)
      \<and> root = \<lparr>Priority = 1, Data = Some 0, Order = 1\<rparr>)"
proof -
  let ?h = "[\<lparr>Priority = 0, Data = None, Order = 0\<rparr>,
               \<lparr>Priority = 1, Data = Some 0, Order = 1\<rparr>,
               \<lparr>Priority = 3, Data = Some 1, Order = 2\<rparr>,
               \<lparr>Priority = 2, Data = Some (2::nat), Order = 3::nat\<rparr>]"
  have a: "0 < Len ?h" by (simp add: Len_def)
  have b: "heap_order ?h" by code_simp
  from Pop_refines_pop_spec[OF a b] obtain root rest where
    r: "at ?h 1 = Some root" "pop_spec ?h = (root, rest)" "Pop ?h = Some (Some root, rest)"
    by blast
  from r(1) have "root = \<lparr>Priority = 1, Data = Some 0, Order = 1\<rparr>" by (simp add: at_def)
  with a b r(2,3) show ?thesis by (intro conjI exI[of _ root] exI[of _ rest])
qed

section \<open>Popping everything: the dequeue order\<close>

lemma popAll_spec:
  "h \<noteq> [] \<Longrightarrow> hp h \<Longrightarrow>
   \<exists>xs. popAll h = Some (xs, [h ! 0]) \<and> sorted (map key xs) \<and> mset xs = mset (tl h)"
proof (induction "length h" arbitrary: h rule: less_induct)
  case less
  consider "length h = 1" | "2 \<le> length h" using less.prems(1)
    by (cases h) (auto simp: Suc_le_eq)
  then show ?case
  proof cases
    case 1
    then have h: "h = [h ! 0]" by (cases h) auto
    have "popAll h = Some ([], h)" using 1 by (subst popAll.simps) (simp add: Pop_one)
    moreover have "tl h = []" using 1 by (cases h) auto
    ultimately show ?thesis using h by simp
  next
    case 2
    then have ne: "pop_rest h \<noteq> []" by (auto simp: length_0_conv[symmetric] simp del: length_0_conv)
    have "length (pop_rest h) < length h" using 2 by simp
    from less.hyps[OF this ne hp_pop_rest[OF less.prems(2) 2]] obtain xs where
      xs: "popAll (pop_rest h) = Some (xs, [pop_rest h ! 0])" "sorted (map key xs)"
          "mset xs = mset (tl (pop_rest h))"
      by blast
    have p: "popAll h = Some (h ! 1 # xs, [h ! 0])"
      using xs(1) 2 by (subst popAll.simps) (simp add: Pop_eq pop_rest_nth0)
    have m: "mset (h ! 1 # xs) = mset (tl h)"
      using xs(3) mset_tl_pop_rest[OF 2] by simp
    have "key (h ! 1) \<le> key x" if "x \<in> set xs" for x
    proof -
      from that m have "x \<in> set (tl h)" by (metis list.set_intros(2) mset_eq_setD)
      then obtain i where "i < length (tl h)" "x = tl h ! i" by (auto simp: in_set_conv_nth)
      then have "x = h ! Suc i" "Suc i < length h" by (auto simp: nth_tl)
      then show ?thesis using hp_min[OF less.prems(2), of "Suc i"] by simp
    qed
    then have "sorted (map key (h ! 1 # xs))" using xs(2) by auto
    with p m show ?thesis by blast
  qed
qed

lemma pushAll_spec:
  "h \<noteq> [] \<Longrightarrow> hp h \<Longrightarrow>
   \<exists>h'. pushAll h xs = Some h' \<and> h' \<noteq> [] \<and> hp h' \<and> h' ! 0 = h ! 0
      \<and> mset (tl h') = mset (tl h) + mset xs \<and> length h' = length h + length xs"
proof (induction xs arbitrary: h)
  case Nil
  then show ?case by simp
next
  case (Cons x xs)
  have ne: "push_spec h x \<noteq> []" by (metis length_push_spec length_0_conv nat.simps(3))
  from Cons.IH[OF ne hp_push_spec[OF Cons.prems(2,1)]] obtain h' where
    "pushAll (push_spec h x) xs = Some h'" "h' \<noteq> []" "hp h'" "h' ! 0 = push_spec h x ! 0"
    "mset (tl h') = mset (tl (push_spec h x)) + mset xs"
    "length h' = length (push_spec h x) + length xs"
    by blast
  then show ?case using Cons.prems by (simp add: Push_eq mset_tl_push_spec)
qed

lemma drain_popAll:
  "popAll (heap q) = Some (xs, h0) \<Longrightarrow> drain q = Some (map ret xs)"
proof (induction xs arbitrary: q)
  case Nil
  then have "Empty (heap q)"
    by (subst (asm) popAll.simps) (auto split: bind_splits option.splits dest: Pop_None_Empty)
  then show ?case by (subst drain.simps) (simp add: Queue_Empty_def)
next
  case (Cons x xs)
  from Cons.prems obtain h' where
    p: "Pop (heap q) = Some (Some x, h')" "popAll h' = Some (xs, h0)"
    by (subst (asm) popAll.simps) (auto split: bind_splits option.splits)
  have ne: "\<not> Empty (heap q)" using p(1) by (auto simp: Pop_Empty)
  have d: "Dequeue q = Some (ret x, q\<lparr>heap := h'\<rparr>)" using p(1) by (simp add: Dequeue_def ret_def)
  have "drain (q\<lparr>heap := h'\<rparr>) = Some (map ret xs)" using Cons.IH[of "q\<lparr>heap := h'\<rparr>"] p(2) by simp
  then show ?case using ne d by (subst drain.simps) (simp add: Queue_Empty_def)
qed

section \<open>The queue keeps the heap in order\<close>

lemma map_task_of_renumber [simp]: "map task_of (renumber k xs) = map task_of xs"
  by (induction xs arbitrary: k) (simp_all add: task_of_def)

lemma length_renumber [simp]: "length (renumber k xs) = length xs"
  by (induction xs arbitrary: k) simp_all

lemma ReOrder_spec:
  assumes "h \<noteq> []" "hp h"
  shows "\<exists>xs h'. popAll h = Some (xs, [h ! 0]) \<and> sorted (map key xs) \<and> mset xs = mset (tl h)
     \<and> ReOrder h = Some (h', of_nat (length xs)) \<and> h' \<noteq> [] \<and> hp h' \<and> h' ! 0 = h ! 0
     \<and> mset (tl h') = mset (renumber 0 xs) \<and> length h' = length h"
proof -
  from popAll_spec[OF assms] obtain xs where
    xs: "popAll h = Some (xs, [h ! 0])" "sorted (map key xs)" "mset xs = mset (tl h)" by blast
  have "hp [h ! 0]" by (simp add: hp_def)
  from pushAll_spec[OF _ this, of "renumber 0 xs"] obtain h' where
    h': "pushAll [h ! 0] (renumber 0 xs) = Some h'" "h' \<noteq> []" "hp h'" "h' ! 0 = h ! 0"
        "mset (tl h') = mset (renumber 0 xs)" "length h' = 1 + length xs"
    by auto
  have "length xs = length (tl h)" using xs(3) by (metis size_mset)
  then have "length h' = length h" using h'(6) assms(1) by (cases h) auto
  moreover have "ReOrder h = Some (h', of_nat (length xs))"
    using xs(1) h'(1) by (simp add: ReOrder_def)
  ultimately show ?thesis using xs h' by blast
qed

lemma Enqueue_inv:
  assumes "qinv q"
  shows "\<exists>q'. Enqueue q d p = Some q' \<and> qinv q'
     \<and> image_mset task_of (mset (tl (heap q'))) = add_mset (d, p) (image_mset task_of (mset (tl (heap q))))
     \<and> length (heap q') = Suc (length (heap q)) \<and> heap q' ! 0 = heap q ! 0"
proof -
  from assms have inv: "heap q \<noteq> []" "hp (heap q)" by (simp_all add: qinv_def)
  obtain h c where hc: "(if count_q q = MaxUint64 then ReOrder (heap q)
                else Some (heap q, count_q q)) = Some (h, c)"
    and h: "h \<noteq> []" "hp h" "h ! 0 = heap q ! 0" "length h = length (heap q)"
      "image_mset task_of (mset (tl h)) = image_mset task_of (mset (tl (heap q)))"
  proof (cases "count_q q = MaxUint64")
    case True
    from ReOrder_spec[OF inv] obtain xs h' where
      r: "mset xs = mset (tl (heap q))" "ReOrder (heap q) = Some (h', of_nat (length xs))"
         "h' \<noteq> []" "hp h'" "h' ! 0 = heap q ! 0" "mset (tl h') = mset (renumber 0 xs)"
         "length h' = length (heap q)"
      by blast
    have "image_mset task_of (mset (tl h')) = mset (map task_of (renumber 0 xs))"
      using r(6) by (simp only: mset_map)
    also have "\<dots> = mset (map task_of xs)" by simp
    also have "\<dots> = image_mset task_of (mset (tl (heap q)))" using r(1) by (simp only: mset_map)
    finally show ?thesis using that[of h' "of_nat (length xs)"] True r by simp
  next
    case False
    then show ?thesis using that[of "heap q" "count_q q"] inv by simp
  qed
  let ?x = "\<lparr>Priority = p, Data = d, Order = c + 1\<rparr>"
  have e: "Enqueue q d p = Some \<lparr>heap = push_spec h ?x, count_q = c + 1\<rparr>"
    using hc by (simp add: Enqueue_def Push_eq Let_def)
  have ne: "push_spec h ?x \<noteq> []" by (metis length_push_spec length_0_conv nat.simps(3))
  show ?thesis
    using e ne hp_push_spec[OF h(2,1), of ?x] h
    by (simp add: qinv_def mset_tl_push_spec task_of_def)
qed

lemma Dequeue_inv:
  assumes "qinv q"
  shows "\<exists>r q'. Dequeue q = Some (r, q') \<and> qinv q' \<and> count_q q' = count_q q
     \<and> (if Queue_Empty q then r = (None, Some EmptyQueue) \<and> q' = q
         else snd r = None \<and> length (heap q) = Suc (length (heap q')))"
proof -
  from assms have inv: "heap q \<noteq> []" "hp (heap q)" by (simp_all add: qinv_def)
  consider "length (heap q) = 1" | "2 \<le> length (heap q)" using inv(1)
    by (cases "heap q") (auto simp: Suc_le_eq)
  then show ?thesis
  proof cases
    case 1
    then have "Queue_Empty q" by (simp add: Queue_Empty_def Empty_def Len_def)
    then show ?thesis using assms by (simp add: Dequeue_Empty)
  next
    case 2
    then have ne: "pop_rest (heap q) \<noteq> []" "\<not> Queue_Empty q"
      by (auto simp: length_0_conv[symmetric] Queue_Empty_def Empty_def Len_def simp del: length_0_conv)
    then show ?thesis using 2 hp_pop_rest[OF inv(2) 2]
      by (simp add: Dequeue_def Pop_eq qinv_def)
  qed
qed

lemma mockNewQueue_inv: "qinv (mockNewQueue c)" "qinv NewQueue"
  by (simp_all add: qinv_def mockNewQueue_def NewQueue_def NewHeap_def hp_def)

lemma run_inv:
  "qinv q \<Longrightarrow>
   \<exists>rs q'. run ops q = Some (rs, q') \<and> qinv q'
     \<and> length (heap q') + successes rs = length (heap q) + enqueues ops"
proof (induction ops arbitrary: q)
  case Nil
  then show ?case by (simp add: successes_def)
next
  case (Cons a ops)
  show ?case
  proof (cases a)
    case (Enq d p)
    from Enqueue_inv[OF Cons.prems, of d p] obtain q1 where
      q1: "Enqueue q d p = Some q1" "qinv q1" "length (heap q1) = Suc (length (heap q))" by blast
    from Cons.IH[OF q1(2)] obtain rs q' where
      "run ops q1 = Some (rs, q')" "qinv q'"
      "length (heap q') + successes rs = length (heap q1) + enqueues ops" by blast
    then show ?thesis using Enq q1 by simp
  next
    case Deq
    from Dequeue_inv[OF Cons.prems] obtain r q1 where
      q1: "Dequeue q = Some (r, q1)" "qinv q1"
        "if Queue_Empty q then r = (None, Some EmptyQueue) \<and> q1 = q
         else snd r = None \<and> length (heap q) = Suc (length (heap q1))" by blast
    from Cons.IH[OF q1(2)] obtain rs q' where
      "run ops q1 = Some (rs, q')" "qinv q'"
      "length (heap q') + successes rs = length (heap q1) + enqueues ops" by blast
    then show ?thesis using Deq q1 by (auto simp: successes_def split: if_splits)
  qed
qed

lemma enqueue_all_inv:
  "qinv q \<Longrightarrow>
   \<exists>q'. enqueue_all q ts = Some q' \<and> qinv q'
     \<and> image_mset task_of (mset (tl (heap q'))) = image_mset task_of (mset (tl (heap q))) + mset ts"
proof (induction ts arbitrary: q)
  case Nil
  then show ?case by simp
next
  case (Cons t ts)
  obtain d p where t: "t = (d, p)" by (cases t)
  from Enqueue_inv[OF Cons.prems, of d p] obtain q1 where
    q1: "Enqueue q d p = Some q1" "qinv q1"
    "image_mset task_of (mset (tl (heap q1))) = add_mset (d, p) (image_mset task_of (mset (tl (heap q))))"
    by blast
  from Cons.IH[OF q1(2)] obtain q' where
    "enqueue_all q1 ts = Some q'" "qinv q'"
    "image_mset task_of (mset (tl (heap q'))) = image_mset task_of (mset (tl (heap q1))) + mset ts"
    by blast
  then show ?case using t q1 by simp
qed

lemma drain_spec:
  assumes "qinv q"
  shows "\<exists>xs. drain q = Some (map ret xs) \<and> popAll (heap q) = Some (xs, [heap q ! 0])
     \<and> sorted (map key xs) \<and> mset xs = mset (tl (heap q))"
proof -
  from assms have "heap q \<noteq> []" "hp (heap q)" by (simp_all add: qinv_def)
  from popAll_spec[OF this] obtain xs where
    xs: "popAll (heap q) = Some (xs, [heap q ! 0])" "sorted (map key xs)" "mset xs = mset (tl (heap q))"
    by blast
  with drain_popAll[OF xs(1)] show ?thesis by blast
qed


lemma qinv_NewHeap: "heap q = NewHeap \<Longrightarrow> qinv q"
  by (simp add: qinv_def NewHeap_def hp_def)

lemma key_le_Priority: "key x \<le> key y \<Longrightarrow> Priority x \<le> Priority y"
  by (auto simp: key_def)

lemma sorted_key_Priority: "sorted (map key xs) \<Longrightarrow> sorted (map Priority xs)"
  unfolding sorted_map by (erule sorted_wrt_mono_rel[rotated]) (simp add: key_le_Priority)

section \<open>Draining gives ascending priorities\<close>

text \<open>
  C1. Enqueue any list of tasks (payload, priority) into a queue whose heap is new,
  whatever its counter, so also when a renumbering happens on the way; then drain it.
  No call panics, every \<open>Dequeue\<close> succeeds, and the payloads come out as the payloads of
  a rearrangement of the tasks in non-decreasing order of priority.
\<close>

theorem drain_priorities_ascending:
  fixes q0 :: "'a Queue" and tasks :: "('a option \<times> int) list"
  assumes "heap q0 = NewHeap"
  shows "\<exists>q ts. enqueue_all q0 tasks = Some q \<and> mset ts = mset tasks
     \<and> sorted (map snd ts) \<and> drain q = Some (map (\<lambda>t. (fst t, None)) ts)"
proof -
  from enqueue_all_inv[OF qinv_NewHeap[OF assms], of tasks] obtain q where
    q: "enqueue_all q0 tasks = Some q" "qinv q"
       "image_mset task_of (mset (tl (heap q))) = mset tasks"
    using assms by (auto simp: NewHeap_def)
  from drain_spec[OF q(2)] obtain xs where
    xs: "drain q = Some (map ret xs)" "sorted (map key xs)" "mset xs = mset (tl (heap q))"
    by blast
  let ?ts = "map task_of xs"
  have "mset ?ts = mset tasks" using q(3) xs(3) by simp
  moreover have "sorted (map snd ?ts)"
    using sorted_key_Priority[OF xs(2)] by (simp add: task_of_def comp_def)
  moreover have "map (\<lambda>t. (fst t, None)) ?ts = map ret xs"
    by (simp add: task_of_def ret_def)
  ultimately show ?thesis using q(1) xs(1) by metis
qed

theorem drain_priorities_ascending_witness:
  "heap (mockNewQueue (MaxUint64 - 1) :: nat Queue) = NewHeap
   \<and> (\<exists>q (ts :: (nat option \<times> int) list).
          enqueue_all (mockNewQueue (MaxUint64 - 1) :: nat Queue)
                [(Some 10, 5), (Some 11, 3), (Some 12, 5)] = Some q
        \<and> sorted (map snd ts)
        \<and> map (\<lambda>t. (fst t, None :: error option)) ts
            = [(Some 11, None), (Some 10, None), (Some 12, None)]
        \<and> drain q = Some [(Some 11, None), (Some 10, None), (Some 12, None)])"
proof -
  let ?q0 = "mockNewQueue (MaxUint64 - 1) :: nat Queue"
  let ?tasks = "[(Some 10, 5), (Some 11, 3), (Some 12, 5)] :: (nat option \<times> int) list"
  have a: "heap ?q0 = NewHeap" by (simp add: mockNewQueue_def)
  have e: "enqueue_all ?q0 ?tasks \<bind> drain
      = Some [(Some 11, None), (Some 10, None), (Some 12, None)]"
    by code_simp
  from drain_priorities_ascending[OF a, of ?tasks]
  obtain q and ts :: "(nat option \<times> int) list" where
    r: "enqueue_all ?q0 ?tasks = Some q" "sorted (map snd ts)"
       "drain q = Some (map (\<lambda>t. (fst t, None)) ts)"
    by blast
  from e r(1,3) have m: "map (\<lambda>t. (fst t, None :: error option)) ts
            = [(Some 11, None), (Some 10, None), (Some 12, None)]"
    by (simp del: enqueue_all.simps)
  with r(3) have d: "drain q = Some [(Some 11, None), (Some 10, None), (Some 12, None)]"
    by simp
  from a r(1,2) m d show ?thesis by (intro conjI exI[of _ q] exI[of _ ts])
qed

section \<open>Counting\<close>

text \<open>
  C6. After any sequence of \<open>Enqueue\<close> and \<open>Dequeue\<close> calls on a queue whose heap is new,
  with \<open>E\<close> calls of \<open>Enqueue\<close> and \<open>D\<close> calls of \<open>Dequeue\<close> that returned no error,
  \<open>Len\<close> is \<open>E - D\<close>.
\<close>

theorem Len_is_enqueues_minus_dequeues:
  fixes q0 :: "'a Queue"
  assumes "heap q0 = NewHeap"
  shows "\<exists>rs q. run ops q0 = Some (rs, q)
     \<and> Queue_Len q = int (enqueues ops) - int (successes rs)"
proof -
  from run_inv[OF qinv_NewHeap[OF assms], of ops] obtain rs q where
    r: "run ops q0 = Some (rs, q)"
       "length (heap q) + successes rs = length (heap q0) + enqueues ops"
    by blast
  from r(2) assms have "Queue_Len q = int (enqueues ops) - int (successes rs)"
    by (simp add: Queue_Len_def Len_def NewHeap_def)
  with r(1) show ?thesis by blast
qed

theorem Len_is_enqueues_minus_dequeues_witness:
  "heap (NewQueue :: nat Queue) = NewHeap
   \<and> (\<exists>rs q. run [Enq (Some 1) 7, Deq, Deq, Enq (Some 2) 7, Enq None 1] (NewQueue :: nat Queue)
                = Some (rs, q)
        \<and> rs = [(Some 1, None), (None, Some EmptyQueue)]
        \<and> Queue_Len q = 2)"
proof -
  let ?ops = "[Enq (Some 1) 7, Deq, Deq, Enq (Some 2) 7, Enq None 1] :: nat queue_op list"
  have a: "heap (NewQueue :: nat Queue) = NewHeap" by (simp add: NewQueue_def)
  have e: "map_option fst (run ?ops NewQueue) = Some [(Some 1, None), (None, Some EmptyQueue)]"
    by code_simp
  from Len_is_enqueues_minus_dequeues[OF a, of ?ops] obtain rs q where
    r: "run ?ops NewQueue = Some (rs, q)"
       "Queue_Len q = int (enqueues ?ops) - int (successes rs)"
    by blast
  from e r(1) have rs: "rs = [(Some 1, None), (None, Some EmptyQueue)]"
    by (simp del: run.simps)
  with r(2) have "Queue_Len q = 2" by (simp add: successes_def)
  with a r(1) rs show ?thesis by (intro conjI exI[of _ rs] exI[of _ q])
qed

section \<open>Sequence numbers and first-come first-served\<close>

















lemma enqueues_label [simp]: "enqueues (label c ops) = enqueues ops"
  by (induction c ops rule: label.induct) simp_all






section \<open>Renumbering\<close>







end
